theory Spec2Isabelle
  imports Complex_Main "HOL-Library.Word" "HOL-Library.Log_Nat"
begin

section \<open>Machine types\<close>

text \<open>
  Go's \<open>int64\<close> is a 64-bit two's complement integer: \<open>+\<close> and unary \<open>-\<close> wrap around,
  comparisons are signed (\<open>\<le>s\<close> on words, \<open>sint\<close> reads the signed value).
\<close>

type_synonym int64 = "64 word"

text \<open>
  A finite \<open>float32\<close> value is kept as a pair \<open>(m, e)\<close> of integers that stands for
  \<open>m * 2 ^ e\<close>. IEEE 754 single precision has a significand of 24 bits; every result of an
  operation is rounded to the nearest value with such a significand, ties going to the even
  significand. The exponent range of the format (overflow to infinity, subnormal numbers)
  is not part of the model: the strict limit starts from an \<open>int64\<close> and multiplies it by
  \<open>0.75\<close>, so every nonzero magnitude there lies between \<open>0.75\<close> and \<open>2 ^ 63\<close>.
\<close>

type_synonym float32 = "int \<times> int"

definition f32_round :: "int \<Rightarrow> int \<Rightarrow> float32" where
  "f32_round m e =
     (let a = \<bar>m\<bar>; s = bitlen a - 24 in
      if s \<le> 0 then (m, e)
      else
        let q = a div 2 ^ nat s;
            r = a mod 2 ^ nat s;
            h = 2 ^ nat (s - 1);
            q' = (if h < r \<or> (r = h \<and> odd q) then q + 1 else q)
        in (sgn m * q', e + s))"

text \<open>The conversion \<open>float32(n)\<close> of an \<open>int64\<close>.\<close>

definition float32_of_int64 :: "int64 \<Rightarrow> float32" where
  "float32_of_int64 n = f32_round (sint n) 0"

text \<open>The product of two \<open>float32\<close> values: the exact product, rounded.\<close>

definition float32_mul :: "float32 \<Rightarrow> float32 \<Rightarrow> float32" where
  "float32_mul x y = f32_round (fst x * fst y) (snd x + snd y)"

text \<open>The constant \<open>0.75\<close>, which is \<open>3 * 2 ^ -2\<close> exactly.\<close>

definition f32_0_75 :: float32 where
  "f32_0_75 = (3, - 2)"

text \<open>
  The integer a \<open>float32\<close> truncates to (the fraction is discarded, towards zero) and the
  conversion \<open>int64(x)\<close>.
\<close>

definition f32_trunc :: "float32 \<Rightarrow> int" where
  "f32_trunc x =
     (if 0 \<le> snd x then fst x * 2 ^ nat (snd x)
      else sgn (fst x) * (\<bar>fst x\<bar> div 2 ^ nat (- snd x)))"

definition int64_of_float32 :: "float32 \<Rightarrow> int64" where
  "int64_of_float32 x = word_of_int (f32_trunc x)"

section \<open>The limiter\<close>

record cacheLimiter =
  "value" :: int64
  limit :: int64

definition NewCacheLimiter :: "int64 \<Rightarrow> cacheLimiter" where
  "NewCacheLimiter lim' = \<lparr>value = 0, limit = lim'\<rparr>"

text \<open>
  \<open>atomic.AddInt64(&c.value, delta)\<close> adds \<open>delta\<close> to the counter and returns the new
  value.
\<close>

definition AddInt64 :: "cacheLimiter \<Rightarrow> int64 \<Rightarrow> cacheLimiter \<times> int64" where
  "AddInt64 c delta = (c\<lparr>value := value c + delta\<rparr>, value c + delta)"

text \<open>The limit \<open>TryAddBytes\<close> compares with: \<open>lim\<close> after the \<open>if strict\<close> statement.\<close>

definition effective_lim :: "int64 \<Rightarrow> bool \<Rightarrow> int64" where
  "effective_lim lim' useRelaxedLimit =
     (let strict = \<not> useRelaxedLimit in
      if strict then int64_of_float32 (float32_mul (float32_of_int64 lim') f32_0_75)
      else lim')"

definition TryAddBytes :: "cacheLimiter \<Rightarrow> int64 \<Rightarrow> bool \<Rightarrow> cacheLimiter \<times> bool" where
  "TryAddBytes c count useRelaxedLimit =
     (let lim' = effective_lim (limit c) useRelaxedLimit;
          (c1, new) = AddInt64 c count
      in if new \<le>s lim' then (c1, True)
         else (fst (AddInt64 c1 (- count)), False))"

definition RemoveBytes :: "cacheLimiter \<Rightarrow> int64 \<Rightarrow> cacheLimiter" where
  "RemoveBytes c count = (let negativeDelta = - count in fst (AddInt64 c negativeDelta))"

section \<open>Sequences of calls\<close>

text \<open>
  A call of \<open>TryAddBytes\<close> or of \<open>RemoveBytes\<close>, and what running a list of them on a
  limiter gives: the limiter after the last call and, for every call in order, the call
  with the value it returned (\<open>RemoveBytes\<close> returns nothing).
\<close>

datatype call = TryAdd int64 bool | Remove int64

fun do_call :: "cacheLimiter \<Rightarrow> call \<Rightarrow> cacheLimiter \<times> bool option" where
  "do_call c (TryAdd count useRelaxedLimit) =
     (let (c', added) = TryAddBytes c count useRelaxedLimit in (c', Some added))"
| "do_call c (Remove count) = (RemoveBytes c count, None)"

fun run_calls :: "cacheLimiter \<Rightarrow> call list \<Rightarrow> cacheLimiter \<times> (call \<times> bool option) list" where
  "run_calls c [] = (c, [])"
| "run_calls c (x # xs) =
     (let (c1, returned) = do_call c x;
          (c2, log) = run_calls c1 xs
      in (c2, (x, returned) # log))"

text \<open>
  What an entry of the log adds to the sum of the committed counts (the count of a
  \<open>TryAddBytes\<close> that returned true, else nothing) and to the sum of the removed counts.
\<close>

fun committed :: "call \<times> bool option \<Rightarrow> int64" where
  "committed (TryAdd count useRelaxedLimit, Some True) = count"
| "committed other = 0"

fun removed :: "call \<times> bool option \<Rightarrow> int64" where
  "removed (Remove count, returned) = count"
| "removed other = 0"

section \<open>Waiting for room\<close>

text \<open>
  Go's \<open>error\<close> is \<open>nil\<close> or an error; those of package \<open>context\<close> are \<open>Canceled\<close> and
  \<open>DeadlineExceeded\<close>. Of the context, \<open>WaitUntilAddBytes\<close> uses the channel \<open>ctx.Done()\<close>
  and, once that channel is closed, the value of \<open>ctx.Err()\<close>, which is the field \<open>Err\<close>.
\<close>

datatype error = nil | Canceled | DeadlineExceeded

record Context =
  Err :: error

text \<open>
  What the surroundings decide in one round of the loop: the value that this call of the
  predicate \<open>useRelaxedLimit()\<close> returns, the case of the \<open>select\<close> statement that
  proceeds when the round comes to it (\<open>ctx.Done()\<close> is closed, or the timer fires), and
  the net amount that the other goroutines add to the counter (with \<open>TryAddBytes\<close> and
  \<open>RemoveBytes\<close> calls of their own) while the round waits in the \<open>select\<close>.
\<close>

datatype select_case = ctx_Done | time_After

record round =
  useRelaxed :: bool
  selected :: select_case
  others :: int64

text \<open>
  The loop runs on the rounds it is given, one round for each time round the loop. The
  second component of the result is \<open>Some err\<close> when the call returns \<open>err\<close>, and \<open>None\<close>
  when the rounds end with the call still in its loop. The limiter is the one the call
  leaves behind.
\<close>

fun WaitUntilAddBytes ::
  "cacheLimiter \<Rightarrow> Context \<Rightarrow> int64 \<Rightarrow> round list \<Rightarrow> cacheLimiter \<times> error option" where
  "WaitUntilAddBytes c ctx count [] = (c, None)"
| "WaitUntilAddBytes c ctx count (r # rs) =
     (let (c1, added) = TryAddBytes c count (useRelaxed r) in
      if added then (c1, Some nil)
      else
        let c2 = c1\<lparr>value := value c1 + others r\<rparr> in
        (case selected r of
           ctx_Done \<Rightarrow> (c2, Some (Err ctx))
         | time_After \<Rightarrow> WaitUntilAddBytes c2 ctx count rs))"

text \<open>
  The limiter as round \<open>i\<close> of the loop finds it, as long as the call itself has added
  nothing: the counter has moved by what the other goroutines added during the rounds
  before.
\<close>

definition seen :: "cacheLimiter \<Rightarrow> round list \<Rightarrow> nat \<Rightarrow> cacheLimiter" where
  "seen c rs i = c\<lparr>value := value c + sum_list (map others (take i rs))\<rparr>"

text \<open>
  The time the loop sleeps before the next round is
  \<open>time.Duration(2 * float32(time.Second) * rand.Float32())\<close>, for the number \<open>r\<close> that
  \<open>rand.Float32()\<close> returned; \<open>time.Second\<close> is \<open>1000000000\<close> nanoseconds. The loop above
  does not depend on how long the sleep is, only on which case of the \<open>select\<close> proceeds.
\<close>

definition time_Second :: int64 where
  "time_Second = 1000000000"

definition retry_delay :: "float32 \<Rightarrow> int64" where
  "retry_delay r =
     int64_of_float32 (float32_mul (float32_mul (2, 0) (float32_of_int64 time_Second)) r)"

section \<open>The value of a \<open>float32\<close>, and the strict limit in the words of the specification\<close>

text \<open>The real number that the pair \<open>(m, e)\<close> stands for.\<close>

definition f32_val :: "float32 \<Rightarrow> real" where
  "f32_val x = of_int (fst x) * 2 powi snd x"

text \<open>
  The specification gives the strict limit as \<open>0.75 * limit\<close>, "the limit converted to
  single-precision float, multiplied by 0.75, truncated back to a signed integer". The
  definitions below say this over the real numbers. Around a real \<open>x\<close> with
  \<open>2 ^ k \<le> \<bar>x\<bar> < 2 ^ (k + 1)\<close> the single-precision numbers are the multiples of
  \<open>2 ^ (k - 23)\<close>; \<open>to_single x\<close> is the multiple nearest to \<open>x\<close>, the even multiple when
  \<open>x\<close> lies half way between two.
\<close>

definition single_ulp :: "real \<Rightarrow> real" where
  "single_ulp x = 2 powi (\<lfloor>log 2 \<bar>x\<bar>\<rfloor> - 23)"

definition round_ties_even :: "real \<Rightarrow> int" where
  "round_ties_even y =
     (let f = \<lfloor>y\<rfloor> in
      if y - of_int f < 1 / 2 then f
      else if 1 / 2 < y - of_int f then f + 1
      else if even f then f else f + 1)"

definition to_single :: "real \<Rightarrow> real" where
  "to_single x = (if x = 0 then 0 else of_int (round_ties_even (x / single_ulp x)) * single_ulp x)"

definition trunc_toward_zero :: "real \<Rightarrow> int" where
  "trunc_toward_zero x = (if 0 \<le> x then \<lfloor>x\<rfloor> else \<lceil>x\<rceil>)"

definition strict_ceiling_spec :: "int \<Rightarrow> int" where
  "strict_ceiling_spec l = trunc_toward_zero (to_single (to_single (of_int l) * (3 / 4)))"

section \<open>Single precision: the pairs compute what the real numbers say\<close>

lemma floor_log2_eqI:
  fixes x :: real
  assumes "2 powi k \<le> x" "x < 2 powi (k + 1)"
  shows "\<lfloor>log 2 x\<rfloor> = k"
proof -
  have pos: "0 < x" using assms(1) zero_less_power_int [of "2::real" k] by linarith
  have a: "(2::real) powr real_of_int k = 2 powi k"
    by (rule powr_real_of_int') simp_all
  have "(2::real) powr real_of_int (k + 1) = 2 powi (k + 1)"
    by (rule powr_real_of_int') simp_all
  then have b: "(2::real) powr (real_of_int k + 1) = 2 powi (k + 1)" by simp
  from assms pos show ?thesis
    using floor_log_eq_powr_iff [of x 2 k] by (simp add: a b)
qed

lemma round_ties_even_of_int [simp]: "round_ties_even (of_int k) = k"
  by (simp add: round_ties_even_def)

lemma round_ties_even_uminus: "round_ties_even (- y) = - round_ties_even y"
proof (cases "y = of_int \<lfloor>y\<rfloor>")
  case True
  then obtain k where "y = of_int k" ..
  then have "- y = of_int (- k)" by simp
  then show ?thesis using \<open>y = of_int k\<close> by (simp only: round_ties_even_of_int)
next
  case False
  then have lt: "of_int \<lfloor>y\<rfloor> < y" using of_int_floor_le [of y] by linarith
  have "\<lfloor>- y\<rfloor> = - \<lfloor>y\<rfloor> - 1"
    using lt floor_correct [of y] by (intro floor_unique) (simp_all, linarith)
  then show ?thesis
    by (auto simp add: round_ties_even_def Let_def)
qed


lemma bitlen_bounds_real:
  assumes "0 < a"
  shows "2 powi (bitlen a - 1) \<le> real_of_int a" "real_of_int a < 2 powi bitlen a"
proof -
  from assms have b: "1 \<le> bitlen a" by (simp add: bitlen_alt_def)
  from bitlen_bounds [OF assms] have "2 ^ nat (bitlen a - 1) \<le> a" "a < 2 ^ nat (bitlen a)"
    by simp_all
  then have "real_of_int (2 ^ nat (bitlen a - 1)) \<le> real_of_int a"
    "real_of_int a < real_of_int (2 ^ nat (bitlen a))"
    by (simp_all only: of_int_le_iff of_int_less_iff)
  moreover have "(2::real) powi (bitlen a - 1) = 2 ^ nat (bitlen a - 1)"
    "(2::real) powi bitlen a = 2 ^ nat (bitlen a)"
    using b by (simp_all add: power_int_def)
  ultimately show "2 powi (bitlen a - 1) \<le> real_of_int a" "real_of_int a < 2 powi bitlen a"
    by simp_all
qed

lemma single_ulp_val:
  assumes "m \<noteq> 0"
  shows "single_ulp (of_int m * 2 powi e) = 2 powi (bitlen \<bar>m\<bar> - 24 + e)"
proof -
  let ?a = "\<bar>m\<bar>" and ?b = "bitlen \<bar>m\<bar>"
  have a: "0 < ?a" using assms by simp
  have p: "(0::real) < 2 powi e" by simp
  have abs: "\<bar>real_of_int m * 2 powi e\<bar> = real_of_int ?a * 2 powi e"
    by (simp add: abs_mult)
  have "2 powi (?b - 1) * 2 powi e \<le> real_of_int ?a * 2 powi e"
    using bitlen_bounds_real(1) [OF a] p by (simp only: mult_le_cancel_right_pos)
  moreover have "real_of_int ?a * 2 powi e < 2 powi ?b * 2 powi e"
    using bitlen_bounds_real(2) [OF a] p by (simp only: mult_less_cancel_right_pos)
  moreover have "(2::real) powi (?b - 1) * 2 powi e = 2 powi (?b - 1 + e)"
    "(2::real) powi ?b * 2 powi e = 2 powi (?b - 1 + e + 1)"
    by (simp_all add: power_int_add)
  ultimately have "\<lfloor>log 2 (real_of_int ?a * 2 powi e)\<rfloor> = ?b - 1 + e"
    by (intro floor_log2_eqI) simp_all
  then have "\<lfloor>log 2 \<bar>real_of_int m * 2 powi e\<bar>\<rfloor> - 23 = ?b - 24 + e"
    unfolding abs by linarith
  then show ?thesis
    unfolding single_ulp_def by (rule arg_cong)
qed

lemma round_ties_even_div:
  assumes "0 \<le> a" "0 < n"
  shows "round_ties_even (real_of_int a / 2 ^ n) =
     (if 2 ^ (n - 1) < a mod 2 ^ n \<or> (a mod 2 ^ n = 2 ^ (n - 1) \<and> odd (a div 2 ^ n))
      then a div 2 ^ n + 1 else a div 2 ^ n)"
proof -
  let ?q = "a div 2 ^ n" and ?r = "a mod 2 ^ n" and ?h = "(2::int) ^ (n - 1)"
  have pw: "(2::int) ^ n = 2 * ?h" using assms(2) by (cases n) simp_all
  have fl: "\<lfloor>real_of_int a / 2 ^ n\<rfloor> = ?q"
    using floor_divide_of_int_eq [of a "2 ^ n", where ?'a = real] by simp
  have "a = ?q * 2 ^ n + ?r" by (simp only: div_mult_mod_eq)
  then have "real_of_int a = real_of_int ?q * 2 ^ n + real_of_int ?r"
    by (metis of_int_add of_int_mult of_int_numeral of_int_power)
  then have fr: "real_of_int a / 2 ^ n - real_of_int ?q = real_of_int ?r / 2 ^ n"
    by (simp add: field_simps)
  have pwr: "(2::real) ^ n = 2 * real_of_int ?h" using assms(2) by (cases n) simp_all
  have c1: "real_of_int ?r / 2 ^ n < 1 / 2 \<longleftrightarrow> ?r < ?h"
    unfolding pwr by (simp add: field_simps)
  have c2: "1 / 2 < real_of_int ?r / 2 ^ n \<longleftrightarrow> ?h < ?r"
    unfolding pwr by (simp add: field_simps)
  show ?thesis
    unfolding round_ties_even_def Let_def fl fr c1 c2 by auto
qed


lemma f32_round_exact:
  "bitlen \<bar>m\<bar> \<le> 24 \<Longrightarrow> f32_round m e = (m, e)"
  by (simp add: f32_round_def Let_def)

lemma f32_round_inexact:
  "24 < bitlen \<bar>m\<bar> \<Longrightarrow> n = nat (bitlen \<bar>m\<bar> - 24) \<Longrightarrow>
     f32_round m e =
       (sgn m * (if 2 ^ (n - 1) < \<bar>m\<bar> mod 2 ^ n \<or> (\<bar>m\<bar> mod 2 ^ n = 2 ^ (n - 1) \<and> odd (\<bar>m\<bar> div 2 ^ n))
                 then \<bar>m\<bar> div 2 ^ n + 1 else \<bar>m\<bar> div 2 ^ n),
        e + int n)"
  by (simp add: f32_round_def Let_def nat_diff_distrib)

lemma to_single_exact:
  assumes "bitlen \<bar>m\<bar> \<le> 24"
  shows "to_single (of_int m * 2 powi e) = of_int m * 2 powi e"
proof (cases "m = 0")
  case True
  then show ?thesis by (simp add: to_single_def)
next
  case False
  define t where "t = nat (24 - bitlen \<bar>m\<bar>)"
  have s: "bitlen \<bar>m\<bar> - 24 + e = e - int t" using assms by (simp add: t_def)
  have u: "single_ulp (of_int m * 2 powi e) = 2 powi (e - int t)"
    using single_ulp_val [OF False, of e] by (simp only: s)
  have split: "(2::real) powi e = 2 powi (e - int t) * 2 ^ t"
    using power_int_add [of "2::real" "e - int t" "int t"] by simp
  have "real_of_int m * 2 powi e / 2 powi (e - int t) = real_of_int (m * 2 ^ t)"
    by (simp add: split)
  then have r: "round_ties_even (real_of_int m * 2 powi e / 2 powi (e - int t)) = m * 2 ^ t"
    by (simp only: round_ties_even_of_int)
  have x0: "real_of_int m * 2 powi e \<noteq> 0" using False by simp
  have "to_single (of_int m * 2 powi e) = real_of_int (m * 2 ^ t) * 2 powi (e - int t)"
    unfolding to_single_def u by (simp only: x0 r if_False)
  also have "\<dots> = of_int m * 2 powi e" by (simp add: split)
  finally show ?thesis .
qed

lemma to_single_uminus: "to_single (- x) = - to_single x"
  by (simp add: to_single_def single_ulp_def round_ties_even_uminus)

lemma to_single_inexact_pos:
  assumes "0 < a" "24 < bitlen a" "n = nat (bitlen a - 24)"
  shows "to_single (of_int a * 2 powi e) =
     of_int (if 2 ^ (n - 1) < a mod 2 ^ n \<or> (a mod 2 ^ n = 2 ^ (n - 1) \<and> odd (a div 2 ^ n))
             then a div 2 ^ n + 1 else a div 2 ^ n) * 2 powi (e + int n)"
proof -
  have n: "0 < n" "int n = bitlen a - 24" using assms by simp_all
  have a: "a \<noteq> 0" "\<bar>a\<bar> = a" using assms(1) by simp_all
  have u: "single_ulp (of_int a * 2 powi e) = 2 powi (e + int n)"
    using single_ulp_val [OF a(1), of e] by (simp add: a(2) n(2) add.commute)
  have split: "(2::real) powi (e + int n) = 2 powi e * 2 ^ n"
    using power_int_add [of "2::real" e "int n"] by simp
  have "real_of_int a * 2 powi e / 2 powi (e + int n) = real_of_int a / 2 ^ n"
    by (simp add: split)
  then have "round_ties_even (real_of_int a * 2 powi e / 2 powi (e + int n)) =
     (if 2 ^ (n - 1) < a mod 2 ^ n \<or> (a mod 2 ^ n = 2 ^ (n - 1) \<and> odd (a div 2 ^ n))
      then a div 2 ^ n + 1 else a div 2 ^ n)"
    using round_ties_even_div [of a n] assms(1) n(1) by simp
  moreover have "real_of_int a * 2 powi e \<noteq> 0" using a(1) by simp
  ultimately show ?thesis
    unfolding to_single_def u by (simp only: if_False)
qed

lemma f32_round_val: "f32_val (f32_round m e) = to_single (of_int m * 2 powi e)"
proof (cases "bitlen \<bar>m\<bar> \<le> 24")
  case True
  then show ?thesis by (simp add: f32_round_exact to_single_exact f32_val_def)
next
  case False
  then have big: "24 < bitlen \<bar>m\<bar>" by simp
  then have m0: "m \<noteq> 0" by auto
  define n where "n = nat (bitlen \<bar>m\<bar> - 24)"
  have pos: "0 < \<bar>m\<bar>" using m0 by simp
  have mag: "to_single (of_int \<bar>m\<bar> * 2 powi e) =
     of_int (if 2 ^ (n - 1) < \<bar>m\<bar> mod 2 ^ n \<or> (\<bar>m\<bar> mod 2 ^ n = 2 ^ (n - 1) \<and> odd (\<bar>m\<bar> div 2 ^ n))
             then \<bar>m\<bar> div 2 ^ n + 1 else \<bar>m\<bar> div 2 ^ n) * 2 powi (e + int n)"
    using to_single_inexact_pos [OF pos big n_def] .
  have rnd: "f32_val (f32_round m e) =
     of_int (sgn m) * (of_int (if 2 ^ (n - 1) < \<bar>m\<bar> mod 2 ^ n \<or> (\<bar>m\<bar> mod 2 ^ n = 2 ^ (n - 1) \<and> odd (\<bar>m\<bar> div 2 ^ n))
             then \<bar>m\<bar> div 2 ^ n + 1 else \<bar>m\<bar> div 2 ^ n) * 2 powi (e + int n))"
    unfolding f32_round_inexact [OF big n_def] f32_val_def by simp
  show ?thesis
  proof (cases "0 < m")
    case True
    then have "\<bar>m\<bar> = m" "sgn m = 1" by simp_all
    with rnd mag show ?thesis by simp
  next
    case False
    with m0 have neg: "\<bar>m\<bar> = - m" "sgn m = - 1" by simp_all
    have "to_single (of_int m * 2 powi e) = - to_single (of_int \<bar>m\<bar> * 2 powi e)"
      using to_single_uminus [of "of_int \<bar>m\<bar> * 2 powi e"] by (simp add: neg(1))
    with rnd mag show ?thesis by (simp add: neg(2))
  qed
qed


lemma trunc_toward_zero_of_int [simp]: "trunc_toward_zero (of_int k) = k"
  by (simp add: trunc_toward_zero_def)

lemma trunc_toward_zero_uminus: "trunc_toward_zero (- x) = - trunc_toward_zero x"
  by (auto simp add: trunc_toward_zero_def ceiling_def)

lemma f32_trunc_val: "f32_trunc x = trunc_toward_zero (f32_val x)"
proof (cases "0 \<le> snd x")
  case True
  then have "f32_val x = of_int (fst x * 2 ^ nat (snd x))"
    by (simp add: f32_val_def power_int_def)
  then show ?thesis using True by (simp only: trunc_toward_zero_of_int f32_trunc_def if_True)
next
  case False
  define n where "n = nat (- snd x)"
  have v: "f32_val x = of_int (fst x) / 2 ^ n"
    using False by (simp add: f32_val_def power_int_def n_def field_simps)
  have mag: "trunc_toward_zero (of_int \<bar>fst x\<bar> / 2 ^ n) = \<bar>fst x\<bar> div 2 ^ n"
    using floor_divide_of_int_eq [of "\<bar>fst x\<bar>" "2 ^ n", where ?'a = real]
    by (simp add: trunc_toward_zero_def)
  have t: "f32_trunc x = sgn (fst x) * (\<bar>fst x\<bar> div 2 ^ n)"
    using False by (simp add: f32_trunc_def n_def)
  show ?thesis
  proof (cases "0 \<le> fst x")
    case True
    then show ?thesis using mag t v by (cases "fst x = 0") simp_all
  next
    case False
    then have neg: "\<bar>fst x\<bar> = - fst x" "sgn (fst x) = - 1" by simp_all
    have "trunc_toward_zero (of_int (fst x) / 2 ^ n) = - trunc_toward_zero (of_int \<bar>fst x\<bar> / 2 ^ n)"
      using trunc_toward_zero_uminus [of "of_int \<bar>fst x\<bar> / 2 ^ n"] by (simp add: neg(1))
    then show ?thesis using mag t v by (simp add: neg(2))
  qed
qed

lemma float32_of_int64_val: "f32_val (float32_of_int64 l) = to_single (of_int (sint l))"
  by (simp add: float32_of_int64_def f32_round_val)

lemma float32_mul_0_75_val: "f32_val (float32_mul x f32_0_75) = to_single (f32_val x * (3 / 4))"
proof -
  have "(2::real) powi (snd x + - 2) = 2 powi snd x * 2 powi (- 2)"
    by (rule power_int_add) simp
  then have e: "real_of_int (fst x * 3) * 2 powi (snd x + - 2) = f32_val x * (3 / 4)"
    by (simp add: f32_val_def power_int_minus)
  have "f32_val (float32_mul x f32_0_75) = to_single (real_of_int (fst x * 3) * 2 powi (snd x + - 2))"
    unfolding float32_mul_def f32_0_75_def by (simp only: f32_round_val fst_conv snd_conv)
  then show ?thesis by (simp only: e)
qed

lemma strict_lim_trunc:
  "f32_trunc (float32_mul (float32_of_int64 l) f32_0_75) = strict_ceiling_spec (sint l)"
  by (simp add: f32_trunc_val float32_mul_0_75_val float32_of_int64_val strict_ceiling_spec_def)


lemma round_ties_even_error: "\<bar>real_of_int (round_ties_even y) - y\<bar> \<le> 1 / 2"
proof -
  have "real_of_int \<lfloor>y\<rfloor> \<le> y" "y < real_of_int \<lfloor>y\<rfloor> + 1" by linarith+
  then show ?thesis
    by (auto simp add: round_ties_even_def Let_def)
qed

lemma two_powi_floor_log_le:
  assumes "x \<noteq> 0"
  shows "2 powi \<lfloor>log 2 \<bar>x\<bar>\<rfloor> \<le> \<bar>x\<bar>"
proof -
  have pos: "0 < \<bar>x\<bar>" using assms by simp
  have "(2::real) powr real_of_int \<lfloor>log 2 \<bar>x\<bar>\<rfloor> = 2 powi \<lfloor>log 2 \<bar>x\<bar>\<rfloor>"
    by (rule powr_real_of_int') simp_all
  moreover have "(2::real) powr real_of_int \<lfloor>log 2 \<bar>x\<bar>\<rfloor> \<le> \<bar>x\<bar>"
    using floor_log_eq_powr_iff [of "\<bar>x\<bar>" 2 "\<lfloor>log 2 \<bar>x\<bar>\<rfloor>"] pos by simp
  ultimately show ?thesis by simp
qed

lemma to_single_error: "\<bar>to_single x - x\<bar> \<le> \<bar>x\<bar> / 2 ^ 24"
proof (cases "x = 0")
  case True
  then show ?thesis by (simp add: to_single_def)
next
  case False
  define u where "u = single_ulp x"
  have u: "0 < u" by (simp add: u_def single_ulp_def)
  have "(2::real) powi (\<lfloor>log 2 \<bar>x\<bar>\<rfloor> + - 23) = 2 powi \<lfloor>log 2 \<bar>x\<bar>\<rfloor> * 2 powi (- 23)"
    by (rule power_int_add) simp
  then have "u = 2 powi \<lfloor>log 2 \<bar>x\<bar>\<rfloor> / 2 ^ 23"
    by (simp add: u_def single_ulp_def power_int_minus field_simps)
  with two_powi_floor_log_le [OF False] have ub: "u \<le> \<bar>x\<bar> / 2 ^ 23"
    by (simp add: field_simps)
  have "to_single x - x = (real_of_int (round_ties_even (x / u)) - x / u) * u"
    using False u by (simp add: to_single_def u_def [symmetric] field_simps)
  then have "\<bar>to_single x - x\<bar> = \<bar>real_of_int (round_ties_even (x / u)) - x / u\<bar> * u"
    using u by (simp add: abs_mult)
  also have "\<dots> \<le> 1 / 2 * u"
    using round_ties_even_error [of "x / u"] u by (simp only: mult_le_cancel_right_pos)
  also have "\<dots> \<le> \<bar>x\<bar> / 2 ^ 24" using ub by simp
  finally show ?thesis .
qed

lemma to_single_abs_le: "\<bar>to_single x\<bar> \<le> \<bar>x\<bar> * (1 + 1 / 2 ^ 24)"
proof -
  have "\<bar>to_single x\<bar> \<le> \<bar>x\<bar> + \<bar>to_single x - x\<bar>" by linarith
  with to_single_error [of x] show ?thesis by (simp add: algebra_simps)
qed

lemma trunc_toward_zero_abs_le: "\<bar>real_of_int (trunc_toward_zero x)\<bar> \<le> \<bar>x\<bar>"
proof (cases "0 \<le> x")
  case True
  then have "0 \<le> \<lfloor>x\<rfloor>" by simp
  with True show ?thesis by (simp add: trunc_toward_zero_def)
next
  case False
  then have "\<lceil>x\<rceil> \<le> 0" by (simp add: ceiling_le_iff)
  moreover have "x \<le> real_of_int \<lceil>x\<rceil>" by simp
  ultimately show ?thesis using False by (simp add: trunc_toward_zero_def)
qed

lemma strict_ceiling_spec_abs_less:
  assumes "l \<noteq> 0"
  shows "\<bar>strict_ceiling_spec l\<bar> < \<bar>l\<bar>"
proof -
  define x1 where "x1 = to_single (of_int l)"
  define x2 where "x2 = to_single (x1 * (3 / 4))"
  have l: "0 < \<bar>real_of_int l\<bar>" using assms by simp
  have 1: "\<bar>x1\<bar> \<le> \<bar>real_of_int l\<bar> * (1 + 1 / 2 ^ 24)"
    unfolding x1_def by (rule to_single_abs_le)
  have "\<bar>x2\<bar> \<le> \<bar>x1 * (3 / 4)\<bar> * (1 + 1 / 2 ^ 24)"
    unfolding x2_def by (rule to_single_abs_le)
  also have "\<dots> = \<bar>x1\<bar> * (3 / 4 * (1 + 1 / 2 ^ 24))" by (simp add: abs_mult)
  also have "\<dots> \<le> (\<bar>real_of_int l\<bar> * (1 + 1 / 2 ^ 24)) * (3 / 4 * (1 + 1 / 2 ^ 24))"
    using 1 by (rule mult_right_mono) simp
  also have "\<dots> = \<bar>real_of_int l\<bar> * ((1 + 1 / 2 ^ 24) * (3 / 4 * (1 + 1 / 2 ^ 24)))" by simp
  also have "\<dots> < \<bar>real_of_int l\<bar> * 1"
    using l by (intro mult_strict_left_mono) simp_all
  finally have "\<bar>x2\<bar> < \<bar>real_of_int l\<bar>" by simp
  moreover have "\<bar>real_of_int (strict_ceiling_spec l)\<bar> \<le> \<bar>x2\<bar>"
    unfolding strict_ceiling_spec_def x2_def x1_def by (rule trunc_toward_zero_abs_le)
  ultimately have "\<bar>real_of_int (strict_ceiling_spec l)\<bar> < \<bar>real_of_int l\<bar>" by linarith
  then show ?thesis by linarith
qed

lemma strict_ceiling_spec_0 [simp]: "strict_ceiling_spec 0 = 0"
  by (simp add: strict_ceiling_spec_def to_single_def trunc_toward_zero_def)

lemma sint_strict_lim: "sint (effective_lim l False) = strict_ceiling_spec (sint l)"
proof -
  have "\<bar>strict_ceiling_spec (sint l)\<bar> < 2 ^ 63"
  proof (cases "sint l = 0")
    case True
    then show ?thesis by simp
  next
    case False
    have "- (2 ^ 63) \<le> sint l" "sint l < 2 ^ 63"
      using sint_ge [of l] sint_lt [of l] by simp_all
    with strict_ceiling_spec_abs_less [OF False] show ?thesis by linarith
  qed
  then have "signed_take_bit 63 (strict_ceiling_spec (sint l)) = strict_ceiling_spec (sint l)"
    by (intro signed_take_bit_int_eq_self) linarith+
  then show ?thesis
    by (simp add: effective_lim_def int64_of_float32_def strict_lim_trunc sint_sbintrunc')
qed

lemma strict_below_relaxed:
  assumes "0 <s l"
  shows "effective_lim l False <s effective_lim l True"
proof -
  from assms have pos: "0 < sint l" by (simp add: word_sless_alt)
  then have "\<bar>strict_ceiling_spec (sint l)\<bar> < \<bar>sint l\<bar>"
    by (intro strict_ceiling_spec_abs_less) simp
  with pos have "strict_ceiling_spec (sint l) < sint l" by linarith
  then show ?thesis
    by (simp add: word_sless_alt sint_strict_lim) (simp add: effective_lim_def)
qed

section \<open>Properties of a single call\<close>

lemma TryAddBytes_eq:
  "TryAddBytes c count r =
     (if value c + count \<le>s effective_lim (limit c) r
      then (c\<lparr>value := value c + count\<rparr>, True) else (c, False))"
  by (simp add: TryAddBytes_def AddInt64_def Let_def)

lemma RemoveBytes_eq: "RemoveBytes c count = c\<lparr>value := value c - count\<rparr>"
  by (simp add: RemoveBytes_def AddInt64_def)

lemma sint_sub_no_wrap:
  fixes a b :: int64
  assumes "- (2 ^ 63) \<le> sint a - sint b" "sint a - sint b < 2 ^ 63"
  shows "sint (a - b) = sint a - sint b"
  using assms by (simp add: sint_word_ariths signed_take_bit_int_eq_self)

lemma sint_add_no_wrap:
  fixes a b :: int64
  assumes "- (2 ^ 63) \<le> sint a + sint b" "sint a + sint b < 2 ^ 63"
  shows "sint (a + b) = sint a + sint b"
  using assms by (simp add: sint_word_ariths signed_take_bit_int_eq_self)

text \<open>
  C1. For every limiter and every count, \<open>TryAddBytes\<close> returns true, with the count added
  to the counter, when the counter after the addition (an \<open>int64\<close> addition, compared as a
  signed number) is at or below the limit in force, and returns false otherwise. The limit
  in force is \<open>limit\<close> when \<open>useRelaxedLimit\<close> is true and the strict limit
  \<open>int64(float32(limit) * 0.75)\<close> when it is false. When the sum of counter and count is
  an \<open>int64\<close>, the counter after the addition is that sum.
\<close>

theorem TryAddBytes_commits_iff_within_limit:
  "TryAddBytes c count useRelaxedLimit =
     (if value c + count \<le>s effective_lim (limit c) useRelaxedLimit
      then (c\<lparr>value := value c + count\<rparr>, True) else (c, False))
   \<and> effective_lim (limit c) True = limit c
   \<and> effective_lim (limit c) False =
       int64_of_float32 (float32_mul (float32_of_int64 (limit c)) f32_0_75)
   \<and> (- (2 ^ 63) \<le> sint (value c) + sint count \<and> sint (value c) + sint count < 2 ^ 63 \<longrightarrow>
        snd (TryAddBytes c count useRelaxedLimit)
          = (sint (value c) + sint count \<le> sint (effective_lim (limit c) useRelaxedLimit)))"
  by (simp add: TryAddBytes_eq effective_lim_def word_sle_eq sint_add_no_wrap)

theorem TryAddBytes_commits_iff_within_limit_witness:
  "TryAddBytes \<lparr>value = 60, limit = 100\<rparr> 15 False = (\<lparr>value = 75, limit = 100\<rparr>, True)
   \<and> TryAddBytes \<lparr>value = 75, limit = 100\<rparr> 15 False = (\<lparr>value = 75, limit = 100\<rparr>, False)
   \<and> TryAddBytes \<lparr>value = 75, limit = 100\<rparr> 15 True = (\<lparr>value = 90, limit = 100\<rparr>, True)
   \<and> - (2 ^ 63) \<le> sint (60 :: int64) + sint (15 :: int64)
   \<and> sint (60 :: int64) + sint (15 :: int64) < 2 ^ 63
   \<and> sint (60 :: int64) + sint (15 :: int64) \<le> sint (effective_lim 100 False)"
proof -
  have e: "effective_lim 100 False = 75" by code_simp
  show ?thesis
    using TryAddBytes_commits_iff_within_limit [of "\<lparr>value = 60, limit = 100\<rparr>" 15 False]
      TryAddBytes_commits_iff_within_limit [of "\<lparr>value = 75, limit = 100\<rparr>" 15 False]
      TryAddBytes_commits_iff_within_limit [of "\<lparr>value = 75, limit = 100\<rparr>" 15 True]
    by (simp add: e)
qed

text \<open>
  C2. A call of \<open>TryAddBytes\<close> that returns false leaves the limiter exactly as it was:
  the addition and the subtraction that takes it back cancel, also when the addition
  wrapped around. The two cancel as well when another addition \<open>d\<close> to the counter comes
  between them: what is left is the effect of \<open>d\<close> alone.
\<close>

theorem TryAddBytes_failed_unchanged:
  "\<not> snd (TryAddBytes c count useRelaxedLimit) \<Longrightarrow>
     fst (TryAddBytes c count useRelaxedLimit) = c
     \<and> fst (AddInt64 (fst (AddInt64 (fst (AddInt64 c count)) d)) (- count)) = fst (AddInt64 c d)"
  by (simp add: TryAddBytes_eq AddInt64_def split: if_splits)

theorem TryAddBytes_failed_unchanged_witness:
  "\<not> snd (TryAddBytes \<lparr>value = 100, limit = 100\<rparr> 1 True)
   \<and> fst (TryAddBytes \<lparr>value = 100, limit = 100\<rparr> 1 True) = \<lparr>value = 100, limit = 100\<rparr>"
proof -
  have h: "\<not> snd (TryAddBytes \<lparr>value = 100, limit = 100\<rparr> 1 True)"
    by (simp add: TryAddBytes_eq effective_lim_def)
  show ?thesis using h TryAddBytes_failed_unchanged [OF h, of 0] by simp
qed

text \<open>
  C5. \<open>TryAddBytes\<close> compares the counter after the addition with \<open>limit\<close> itself when
  \<open>useRelaxedLimit\<close> is true, and otherwise with the strict limit, whose signed value is,
  for every limit, what the specification says: the limit rounded to single precision,
  times \<open>0.75\<close> rounded to single precision again, with the fraction cut off.
\<close>

theorem strict_limit_is_rounded_three_quarters:
  "snd (TryAddBytes c count useRelaxedLimit)
     = (value c + count \<le>s effective_lim (limit c) useRelaxedLimit)
   \<and> effective_lim (limit c) True = limit c
   \<and> sint (effective_lim (limit c) False) = strict_ceiling_spec (sint (limit c))"
  by (simp add: TryAddBytes_eq sint_strict_lim) (simp add: effective_lim_def)

theorem strict_limit_is_rounded_three_quarters_witness:
  "effective_lim 100 True = 100
   \<and> effective_lim 100 False = 75 \<and> strict_ceiling_spec 100 = 75
   \<and> effective_lim 16777213 False = 12582910 \<and> strict_ceiling_spec 16777213 = 12582910
   \<and> sint (effective_lim (- 7) False) = - 5 \<and> strict_ceiling_spec (- 7) = - 5"
proof -
  have a: "effective_lim 100 False = 75" by code_simp
  have b: "effective_lim 16777213 False = 12582910" by code_simp
  have c: "effective_lim (- 7) False = - 5" by code_simp
  show ?thesis
    using strict_limit_is_rounded_three_quarters [of "\<lparr>value = 0, limit = 100\<rparr>" 0 True]
      strict_limit_is_rounded_three_quarters [of "\<lparr>value = 0, limit = 16777213\<rparr>" 0 True]
      strict_limit_is_rounded_three_quarters [of "\<lparr>value = 0, limit = - 7\<rparr>" 0 True]
    by (simp add: a b c)
qed

text \<open>
  C6. For a limiter made with a positive limit, the strict limit is below the relaxed
  limit, which is the limit itself.
\<close>

theorem relaxed_limit_above_strict_limit:
  "0 <s l \<Longrightarrow>
     effective_lim (limit (NewCacheLimiter l)) False <s effective_lim (limit (NewCacheLimiter l)) True
     \<and> effective_lim (limit (NewCacheLimiter l)) True = l"
  using strict_below_relaxed [of l] by (simp add: NewCacheLimiter_def effective_lim_def)

theorem relaxed_limit_above_strict_limit_witness:
  "(0 :: int64) <s 1
   \<and> effective_lim (limit (NewCacheLimiter 1)) False = 0
   \<and> effective_lim (limit (NewCacheLimiter 1)) True = 1
   \<and> effective_lim (limit (NewCacheLimiter 1)) False <s effective_lim (limit (NewCacheLimiter 1)) True"
proof -
  have h: "(0 :: int64) <s 1" by (simp add: word_sless_alt)
  have e: "effective_lim 1 False = 0" by code_simp
  show ?thesis
    using h relaxed_limit_above_strict_limit [OF h] by (simp add: NewCacheLimiter_def e)
qed

text \<open>
  C7 as it is written fails. A negative count goes through the same comparison as any
  other count, so it is refused when the counter stays above the limit in force. After
  \<open>TryAddBytes(10, true)\<close> on a new limiter of limit 10 the counter is 10, and
  \<open>TryAddBytes(-1, false)\<close> returns false and leaves it at 10 (9 is above the strict limit
  7), where \<open>RemoveBytes(1)\<close> gives 9.
\<close>

theorem negative_count_is_not_always_a_release:
  "(- 1 :: int64) <s 0
   \<and> run_calls (NewCacheLimiter 10) [TryAdd 10 True, TryAdd (- 1) False]
       = (\<lparr>value = 10, limit = 10\<rparr>,
          [(TryAdd 10 True, Some True), (TryAdd (- 1) False, Some False)])
   \<and> TryAddBytes \<lparr>value = 10, limit = 10\<rparr> (- 1) False = (\<lparr>value = 10, limit = 10\<rparr>, False)
   \<and> RemoveBytes \<lparr>value = 10, limit = 10\<rparr> 1 = \<lparr>value = 9, limit = 10\<rparr>"
proof -
  have e: "effective_lim 10 False = 7" by code_simp
  have e': "effective_lim 10 True = 10" by (simp add: effective_lim_def)
  show ?thesis
    by (simp add: NewCacheLimiter_def TryAddBytes_eq RemoveBytes_eq e e' word_sless_alt word_sle_eq)
qed

lemma negative_add_within_limit:
  fixes v count l :: int64
  assumes "count <s 0" "v \<le>s l" "- (2 ^ 63) \<le> sint v + sint count"
  shows "v + count \<le>s l"
proof -
  have "sint v < 2 ^ 63" using sint_lt [of v] by simp
  with assms(1) have "sint v + sint count < 2 ^ 63" by (simp add: word_sless_alt)
  with assms(3) have "sint (v + count) = sint v + sint count" by (rule sint_add_no_wrap)
  with assms(1,2) show ?thesis by (simp add: word_sle_eq word_sless_alt)
qed

text \<open>
  C7, amended. For a negative count, \<open>TryAddBytes\<close> is a release exactly when the counter
  after the addition is at or below the limit in force: then it returns true and leaves
  the limiter as \<open>RemoveBytes(-count)\<close> would; otherwise it returns false and changes
  nothing. It is a release in particular whenever the counter was at or below that limit
  before the call and the subtraction does not wrap around.
\<close>

theorem negative_count_release_when_within_limit:
  "count <s 0 \<Longrightarrow>
     TryAddBytes c count useRelaxedLimit =
       (if value c + count \<le>s effective_lim (limit c) useRelaxedLimit
        then (RemoveBytes c (- count), True) else (c, False))
     \<and> (value c \<le>s effective_lim (limit c) useRelaxedLimit
          \<and> - (2 ^ 63) \<le> sint (value c) + sint count \<longrightarrow>
        TryAddBytes c count useRelaxedLimit = (RemoveBytes c (- count), True))"
  by (simp add: TryAddBytes_eq RemoveBytes_eq negative_add_within_limit)

theorem negative_count_release_when_within_limit_witness:
  "(- 4 :: int64) <s 0
   \<and> TryAddBytes \<lparr>value = 10, limit = 10\<rparr> (- 4) False = (\<lparr>value = 6, limit = 10\<rparr>, True)
   \<and> RemoveBytes \<lparr>value = 10, limit = 10\<rparr> 4 = \<lparr>value = 6, limit = 10\<rparr>
   \<and> (5 :: int64) \<le>s effective_lim 10 False
   \<and> - (2 ^ 63) \<le> sint (5 :: int64) + sint (- 4 :: int64)
   \<and> TryAddBytes \<lparr>value = 5, limit = 10\<rparr> (- 4) False = (\<lparr>value = 1, limit = 10\<rparr>, True)
   \<and> RemoveBytes \<lparr>value = 5, limit = 10\<rparr> 4 = \<lparr>value = 1, limit = 10\<rparr>"
proof -
  have h: "(- 4 :: int64) <s 0" by (simp add: word_sless_alt)
  have e: "effective_lim 10 False = 7" by code_simp
  show ?thesis
    using h negative_count_release_when_within_limit [OF h, of "\<lparr>value = 10, limit = 10\<rparr>" False]
      negative_count_release_when_within_limit [OF h, of "\<lparr>value = 5, limit = 10\<rparr>" False]
    by (simp add: e RemoveBytes_eq word_sle_eq)
qed

text \<open>
  C10. A \<open>TryAddBytes\<close> that returned true, followed by \<open>RemoveBytes\<close> of the same count,
  gives back the limiter as it was before the two calls. \<open>RemoveBytes\<close> subtracts with no
  lower bound: the signed value of the counter afterwards is the difference (as long as
  that is an \<open>int64\<close>), below zero when more is removed than the counter holds.
\<close>

theorem add_then_remove_restores:
  "(snd (TryAddBytes c count useRelaxedLimit) \<longrightarrow>
      RemoveBytes (fst (TryAddBytes c count useRelaxedLimit)) count = c)
   \<and> value (RemoveBytes c count) = value c - count
   \<and> (- (2 ^ 63) \<le> sint (value c) - sint count \<and> sint (value c) - sint count < 2 ^ 63 \<longrightarrow>
        sint (value (RemoveBytes c count)) = sint (value c) - sint count)"
  by (auto simp add: TryAddBytes_eq RemoveBytes_eq sint_sub_no_wrap)

theorem add_then_remove_restores_witness:
  "snd (TryAddBytes (NewCacheLimiter 100) 5 False)
   \<and> RemoveBytes (fst (TryAddBytes (NewCacheLimiter 100) 5 False)) 5 = NewCacheLimiter 100
   \<and> sint (value (RemoveBytes (fst (TryAddBytes (NewCacheLimiter 100) 5 False)) 8)) = - 3"
proof -
  have e: "effective_lim 100 False = 75" by code_simp
  have t: "TryAddBytes (NewCacheLimiter 100) 5 False = (\<lparr>value = 5, limit = 100\<rparr>, True)"
    by (simp add: TryAddBytes_eq NewCacheLimiter_def e)
  show ?thesis
    using add_then_remove_restores [of "NewCacheLimiter 100" 5 False]
      add_then_remove_restores [of "\<lparr>value = 5, limit = 100\<rparr>" 8 False]
    by (simp add: t)
qed

section \<open>Properties of sequences of calls\<close>

lemma run_calls_value:
  "value (fst (run_calls c xs)) =
     value c + sum_list (map committed (snd (run_calls c xs)))
             - sum_list (map removed (snd (run_calls c xs)))"
proof (induction xs arbitrary: c)
  case Nil
  then show ?case by simp
next
  case (Cons x xs)
  show ?case
  proof (cases x)
    case (TryAdd n r)
    then show ?thesis
      using Cons.IH [of "fst (TryAddBytes c n r)"]
      by (simp add: TryAddBytes_eq split_beta Let_def)
  next
    case (Remove n)
    then show ?thesis
      using Cons.IH [of "RemoveBytes c n"]
      by (simp add: RemoveBytes_eq split_beta Let_def)
  qed
qed

lemma run_calls_take:
  "snd (run_calls c (take k xs)) = take k (snd (run_calls c xs))"
proof (induction xs arbitrary: c k)
  case Nil
  then show ?case by simp
next
  case (Cons x xs)
  then show ?case by (cases k) (simp_all add: split_beta Let_def)
qed

lemma word_of_int_sum_list_sint:
  "word_of_int (sum_list (map sint ws)) = sum_list (ws :: int64 list)"
  by (induction ws) simp_all

lemma sint_sum_list_no_wrap:
  fixes ws vs :: "int64 list"
  assumes "- (2 ^ 63) \<le> sum_list (map sint ws) - sum_list (map sint vs)"
    "sum_list (map sint ws) - sum_list (map sint vs) < 2 ^ 63"
  shows "sint (sum_list ws - sum_list vs) = sum_list (map sint ws) - sum_list (map sint vs)"
proof -
  have "sum_list ws - sum_list vs
      = (word_of_int (sum_list (map sint ws) - sum_list (map sint vs)) :: int64)"
    by (simp add: word_of_int_sum_list_sint)
  then have "sint (sum_list ws - sum_list vs)
      = signed_take_bit 63 (sum_list (map sint ws) - sum_list (map sint vs))"
    by (simp only: sint_sbintrunc') simp
  with assms show ?thesis by (simp add: signed_take_bit_int_eq_self)
qed

text \<open>
  C3. Run any list of \<open>TryAddBytes\<close> and \<open>RemoveBytes\<close> calls on a new limiter. After the
  first \<open>k\<close> calls, for every \<open>k\<close>, the counter is the sum of the counts of the
  \<open>TryAddBytes\<close> calls among them that returned true, minus the sum of the counts of the
  \<open>RemoveBytes\<close> calls among them; a \<open>TryAddBytes\<close> that returned false adds nothing. The
  sums are \<open>int64\<close> sums, as the counter is; when the same sums taken over the integers
  give an \<open>int64\<close>, that is the signed value of the counter.
\<close>

theorem counter_is_committed_minus_removed:
  "value (fst (run_calls (NewCacheLimiter l) (take k calls))) =
     sum_list (map committed (take k (snd (run_calls (NewCacheLimiter l) calls))))
     - sum_list (map removed (take k (snd (run_calls (NewCacheLimiter l) calls))))
   \<and> (- (2 ^ 63) \<le> sum_list (map (sint \<circ> committed) (take k (snd (run_calls (NewCacheLimiter l) calls))))
                    - sum_list (map (sint \<circ> removed) (take k (snd (run_calls (NewCacheLimiter l) calls))))
      \<and> sum_list (map (sint \<circ> committed) (take k (snd (run_calls (NewCacheLimiter l) calls))))
                    - sum_list (map (sint \<circ> removed) (take k (snd (run_calls (NewCacheLimiter l) calls)))) < 2 ^ 63
      \<longrightarrow> sint (value (fst (run_calls (NewCacheLimiter l) (take k calls)))) =
            sum_list (map (sint \<circ> committed) (take k (snd (run_calls (NewCacheLimiter l) calls))))
            - sum_list (map (sint \<circ> removed) (take k (snd (run_calls (NewCacheLimiter l) calls)))))"
proof -
  define log where "log = take k (snd (run_calls (NewCacheLimiter l) calls))"
  have v: "value (fst (run_calls (NewCacheLimiter l) (take k calls))) =
     sum_list (map committed log) - sum_list (map removed log)"
    using run_calls_value [of "NewCacheLimiter l" "take k calls"]
    by (simp add: run_calls_take NewCacheLimiter_def log_def)
  have "- (2 ^ 63) \<le> sum_list (map (sint \<circ> committed) log) - sum_list (map (sint \<circ> removed) log)
      \<and> sum_list (map (sint \<circ> committed) log) - sum_list (map (sint \<circ> removed) log) < 2 ^ 63
      \<longrightarrow> sint (sum_list (map committed log) - sum_list (map removed log)) =
            sum_list (map (sint \<circ> committed) log) - sum_list (map (sint \<circ> removed) log)"
    using sint_sum_list_no_wrap [of "map committed log" "map removed log"] by simp
  with v show ?thesis unfolding log_def by simp
qed

theorem counter_is_committed_minus_removed_witness:
  "run_calls (NewCacheLimiter 100) [TryAdd 100 True, TryAdd 1 True, Remove 50, TryAdd 50 True] =
     (\<lparr>value = 100, limit = 100\<rparr>,
      [(TryAdd 100 True, Some True), (TryAdd 1 True, Some False), (Remove 50, None),
       (TryAdd 50 True, Some True)])
   \<and> value (fst (run_calls (NewCacheLimiter 100)
        (take 3 [TryAdd 100 True, TryAdd 1 True, Remove 50, TryAdd 50 True]))) = 100 + 0 - 50
   \<and> sint (value (fst (run_calls (NewCacheLimiter 100)
        (take 3 [TryAdd 100 True, TryAdd 1 True, Remove 50, TryAdd 50 True])))) = 100 + 0 - 50"
proof -
  have r: "run_calls (NewCacheLimiter 100) [TryAdd 100 True, TryAdd 1 True, Remove 50, TryAdd 50 True] =
     (\<lparr>value = 100, limit = 100\<rparr>,
      [(TryAdd 100 True, Some True), (TryAdd 1 True, Some False), (Remove 50, None),
       (TryAdd 50 True, Some True)])"
    by (simp add: NewCacheLimiter_def TryAddBytes_eq RemoveBytes_eq effective_lim_def)
  show ?thesis
    using counter_is_committed_minus_removed
      [of 100 3 "[TryAdd 100 True, TryAdd 1 True, Remove 50, TryAdd 50 True]"]
    unfolding r by (simp add: eval_nat_numeral)
qed

section \<open>Properties of the waiting loop\<close>

lemma seen_0 [simp]: "seen c rs 0 = c"
  by (simp add: seen_def)

lemma seen_Cons_Suc [simp]:
  "seen c (r # rs) (Suc i) = seen (c\<lparr>value := value c + others r\<rparr>) rs i"
  by (simp add: seen_def add.assoc)

lemma limit_seen [simp]: "limit (seen c rs i) = limit c"
  by (simp add: seen_def)

lemma WaitUntilAddBytes_refused_round:
  "\<not> snd (TryAddBytes c count (useRelaxed r)) \<Longrightarrow>
     WaitUntilAddBytes c ctx count (r # rs) =
       (case selected r of
          ctx_Done \<Rightarrow> (c\<lparr>value := value c + others r\<rparr>, Some (Err ctx))
        | time_After \<Rightarrow> WaitUntilAddBytes (c\<lparr>value := value c + others r\<rparr>) ctx count rs)"
  by (simp add: TryAddBytes_eq split: if_splits select_case.splits)

lemma WaitUntilAddBytes_added_round:
  "snd (TryAddBytes c count (useRelaxed r)) \<Longrightarrow>
     WaitUntilAddBytes c ctx count (r # rs) = (c\<lparr>value := value c + count\<rparr>, Some nil)"
  by (simp add: TryAddBytes_eq split: if_splits)

lemma WaitUntilAddBytes_value_only:
  "\<exists>v. fst (WaitUntilAddBytes c ctx count rs) = c\<lparr>value := v\<rparr>"
proof (induction rs arbitrary: c)
  case Nil
  have "fst (WaitUntilAddBytes c ctx count []) = c\<lparr>value := value c\<rparr>" by simp
  then show ?case ..
next
  case (Cons r rs)
  show ?case
  proof (cases "snd (TryAddBytes c count (useRelaxed r))")
    case True
    then have "fst (WaitUntilAddBytes c ctx count (r # rs)) = c\<lparr>value := value c + count\<rparr>"
      by (simp add: WaitUntilAddBytes_added_round del: WaitUntilAddBytes.simps)
    then show ?thesis ..
  next
    case False
    show ?thesis
    proof (cases "selected r")
      case ctx_Done
      with False have "fst (WaitUntilAddBytes c ctx count (r # rs)) = c\<lparr>value := value c + others r\<rparr>"
        by (simp add: WaitUntilAddBytes_refused_round del: WaitUntilAddBytes.simps)
      then show ?thesis ..
    next
      case time_After
      from Cons.IH [of "c\<lparr>value := value c + others r\<rparr>"]
      obtain v where "fst (WaitUntilAddBytes (c\<lparr>value := value c + others r\<rparr>) ctx count rs)
          = c\<lparr>value := value c + others r\<rparr>\<lparr>value := v\<rparr>" by blast
      with False time_After have "fst (WaitUntilAddBytes c ctx count (r # rs)) = c\<lparr>value := v\<rparr>"
        by (simp add: WaitUntilAddBytes_refused_round del: WaitUntilAddBytes.simps)
      then show ?thesis ..
    qed
  qed
qed

lemma WaitUntilAddBytes_nil_iff:
  assumes "Err ctx \<noteq> nil"
  shows "snd (WaitUntilAddBytes c ctx count rs) = Some nil \<longleftrightarrow>
     (\<exists>k < length rs.
        (\<forall>i < k. \<not> snd (TryAddBytes (seen c rs i) count (useRelaxed (rs ! i)))
                  \<and> selected (rs ! i) = time_After)
        \<and> snd (TryAddBytes (seen c rs k) count (useRelaxed (rs ! k))))"
proof (induction rs arbitrary: c)
  case Nil
  then show ?case by simp
next
  case (Cons r rs)
  show ?case
  proof (cases "snd (TryAddBytes c count (useRelaxed r))")
    case True
    then show ?thesis
      by (simp add: WaitUntilAddBytes_added_round Ex_less_Suc2 del: WaitUntilAddBytes.simps)
  next
    case False
    show ?thesis
    proof (cases "selected r")
      case ctx_Done
      with False assms show ?thesis
        by (simp add: WaitUntilAddBytes_refused_round Ex_less_Suc2 All_less_Suc2
            del: WaitUntilAddBytes.simps)
    next
      case time_After
      with False show ?thesis
        using Cons.IH [of "c\<lparr>value := value c + others r\<rparr>"]
        by (simp add: WaitUntilAddBytes_refused_round Ex_less_Suc2 All_less_Suc2
            del: WaitUntilAddBytes.simps)
    qed
  qed
qed

lemma WaitUntilAddBytes_first_added:
  "k < length rs \<Longrightarrow>
   \<forall>i < k. \<not> snd (TryAddBytes (seen c rs i) count (useRelaxed (rs ! i)))
            \<and> selected (rs ! i) = time_After \<Longrightarrow>
   snd (TryAddBytes (seen c rs k) count (useRelaxed (rs ! k))) \<Longrightarrow>
   WaitUntilAddBytes c ctx count rs
     = ((seen c rs k)\<lparr>value := value (seen c rs k) + count\<rparr>, Some nil)"
proof (induction rs arbitrary: c k)
  case Nil
  then show ?case by simp
next
  case (Cons r rs)
  show ?case
  proof (cases k)
    case 0
    with Cons.prems show ?thesis
      by (simp add: WaitUntilAddBytes_added_round del: WaitUntilAddBytes.simps)
  next
    case (Suc j)
    with Cons.prems have r: "\<not> snd (TryAddBytes c count (useRelaxed r))" "selected r = time_After"
      by (auto simp add: All_less_Suc2)
    from Suc Cons.prems have
      "j < length rs"
      "\<forall>i < j. \<not> snd (TryAddBytes (seen (c\<lparr>value := value c + others r\<rparr>) rs i) count (useRelaxed (rs ! i)))
            \<and> selected (rs ! i) = time_After"
      "snd (TryAddBytes (seen (c\<lparr>value := value c + others r\<rparr>) rs j) count (useRelaxed (rs ! j)))"
      by (simp_all add: All_less_Suc2)
    from Cons.IH [OF this] r Suc show ?thesis
      by (simp add: WaitUntilAddBytes_refused_round del: WaitUntilAddBytes.simps)
  qed
qed

lemma WaitUntilAddBytes_error:
  "snd (WaitUntilAddBytes c ctx count rs) = Some e \<Longrightarrow> e \<noteq> nil \<Longrightarrow>
     e = Err ctx \<and>
     (\<exists>k < length rs. selected (rs ! k) = ctx_Done
        \<and> fst (WaitUntilAddBytes c ctx count rs) = seen c rs (Suc k))"
proof (induction rs arbitrary: c)
  case Nil
  then show ?case by simp
next
  case (Cons r rs)
  show ?case
  proof (cases "snd (TryAddBytes c count (useRelaxed r))")
    case True
    with Cons.prems show ?thesis
      by (simp add: WaitUntilAddBytes_added_round del: WaitUntilAddBytes.simps)
  next
    case False
    show ?thesis
    proof (cases "selected r")
      case ctx_Done
      with False Cons.prems show ?thesis
        by (auto simp add: WaitUntilAddBytes_refused_round Ex_less_Suc2 simp del: WaitUntilAddBytes.simps)
    next
      case time_After
      with False Cons.prems show ?thesis
        using Cons.IH [of "c\<lparr>value := value c + others r\<rparr>"]
        by (simp add: WaitUntilAddBytes_refused_round Ex_less_Suc2 del: WaitUntilAddBytes.simps)
    qed
  qed
qed

lemma WaitUntilAddBytes_returns_when_cancelled:
  "\<exists>r \<in> set rs. selected r = ctx_Done \<Longrightarrow> snd (WaitUntilAddBytes c ctx count rs) \<noteq> None"
proof (induction rs arbitrary: c)
  case Nil
  then show ?case by simp
next
  case (Cons r rs)
  then show ?case
    by (cases "selected r") (auto simp add: TryAddBytes_eq Let_def split: if_splits)
qed

lemma WaitUntilAddBytes_all_refused:
  assumes "\<forall>r \<in> set rs. \<not> snd (TryAddBytes c count (useRelaxed r)) \<and> others r = 0"
    and "\<exists>r \<in> set rs. selected r = ctx_Done"
  shows "WaitUntilAddBytes c ctx count rs = (c, Some (Err ctx))"
  using assms
proof (induction rs)
  case Nil
  then show ?case by simp
next
  case (Cons r rs)
  then show ?case
    by (cases "selected r") (auto simp add: TryAddBytes_eq Let_def split: if_splits)
qed

text \<open>
  C9. No operation changes the limit: after \<open>TryAddBytes\<close>, \<open>RemoveBytes\<close> and
  \<open>WaitUntilAddBytes\<close> (however far its loop has come) the limit is what it was, and the
  limiter differs from the one before the call in the field \<open>value\<close> at most.
\<close>

theorem limit_never_changes:
  "limit (fst (TryAddBytes c count useRelaxedLimit)) = limit c
   \<and> fst (TryAddBytes c count useRelaxedLimit)
       = c\<lparr>value := value (fst (TryAddBytes c count useRelaxedLimit))\<rparr>
   \<and> limit (RemoveBytes c count) = limit c
   \<and> RemoveBytes c count = c\<lparr>value := value (RemoveBytes c count)\<rparr>
   \<and> limit (fst (WaitUntilAddBytes c ctx count rs)) = limit c
   \<and> fst (WaitUntilAddBytes c ctx count rs)
       = c\<lparr>value := value (fst (WaitUntilAddBytes c ctx count rs))\<rparr>"
proof -
  obtain v where "fst (WaitUntilAddBytes c ctx count rs) = c\<lparr>value := v\<rparr>"
    using WaitUntilAddBytes_value_only by blast
  then show ?thesis
    by (simp add: TryAddBytes_eq RemoveBytes_eq)
qed

theorem limit_never_changes_witness:
  "limit (fst (TryAddBytes \<lparr>value = 0, limit = 100\<rparr> 40 True)) = 100
   \<and> limit (RemoveBytes \<lparr>value = 40, limit = 100\<rparr> 40) = 100
   \<and> limit (fst (WaitUntilAddBytes \<lparr>value = 100, limit = 100\<rparr> \<lparr>Err = Canceled\<rparr> 1
        [\<lparr>useRelaxed = True, selected = time_After, others = - 30\<rparr>,
         \<lparr>useRelaxed = True, selected = ctx_Done, others = 0\<rparr>])) = 100"
  using limit_never_changes [of "\<lparr>value = 0, limit = 100\<rparr>" 40 True "\<lparr>Err = Canceled\<rparr>" "[]"]
    limit_never_changes [of "\<lparr>value = 40, limit = 100\<rparr>" 40 True "\<lparr>Err = Canceled\<rparr>" "[]"]
    limit_never_changes [of "\<lparr>value = 100, limit = 100\<rparr>" 1 True "\<lparr>Err = Canceled\<rparr>"
        "[\<lparr>useRelaxed = True, selected = time_After, others = - 30\<rparr>,
         \<lparr>useRelaxed = True, selected = ctx_Done, others = 0\<rparr>]"]
  by simp

lemma full_limiter_refuses_one:
  assumes "value c = limit c" "0 \<le>s limit c" "limit c <s 9223372036854775807"
  shows "\<not> snd (TryAddBytes c 1 False)"
proof -
  have l: "0 \<le> sint (limit c)" "sint (limit c) < 9223372036854775807"
    using assms(2,3) by (simp_all add: word_sle_eq word_sless_alt)
  then have "sint (limit c + 1) = sint (limit c) + 1"
    using sint_add_no_wrap [of "limit c" 1] by simp
  moreover have "strict_ceiling_spec (sint (limit c)) \<le> sint (limit c)"
  proof (cases "sint (limit c) = 0")
    case True
    then show ?thesis by simp
  next
    case False
    from strict_ceiling_spec_abs_less [OF False] l(1) show ?thesis by linarith
  qed
  ultimately show ?thesis
    by (simp add: TryAddBytes_eq assms(1) word_sle_eq sint_strict_lim)
qed

text \<open>
  C4 as it is written fails in its last part. With limit and counter both at the largest
  \<open>int64\<close> (the counter gets there by one \<open>TryAddBytes\<close> of that count on a new limiter),
  adding 1 wraps around to the smallest \<open>int64\<close>, which is below the strict limit: the call
  returns \<open>nil\<close> and has added the count, although the predicate is false and the context
  is done. And with limit and counter at 10, when the first \<open>select\<close> takes the timer's
  case and another goroutine removes 5 meanwhile, the second round adds the count and the
  call returns \<open>nil\<close>.
\<close>

theorem full_limiter_can_wrap_or_be_emptied:
  "run_calls (NewCacheLimiter 9223372036854775807) [TryAdd 9223372036854775807 True]
     = (\<lparr>value = 9223372036854775807, limit = 9223372036854775807\<rparr>,
        [(TryAdd 9223372036854775807 True, Some True)])
   \<and> WaitUntilAddBytes \<lparr>value = 9223372036854775807, limit = 9223372036854775807\<rparr>
        \<lparr>Err = Canceled\<rparr> 1 [\<lparr>useRelaxed = False, selected = ctx_Done, others = 0\<rparr>]
     = (\<lparr>value = - 9223372036854775808, limit = 9223372036854775807\<rparr>, Some nil)
   \<and> WaitUntilAddBytes \<lparr>value = 10, limit = 10\<rparr> \<lparr>Err = Canceled\<rparr> 1
        [\<lparr>useRelaxed = False, selected = time_After, others = - 5\<rparr>,
         \<lparr>useRelaxed = False, selected = ctx_Done, others = 0\<rparr>]
     = (\<lparr>value = 6, limit = 10\<rparr>, Some nil)"
proof -
  have m: "effective_lim 9223372036854775807 False = 6917529027641081856" by code_simp
  have m': "effective_lim 9223372036854775807 True = 9223372036854775807"
    by (simp add: effective_lim_def)
  have e: "effective_lim 10 False = 7" by code_simp
  show ?thesis
    by (simp add: NewCacheLimiter_def TryAddBytes_eq m m' e word_sle_eq)
qed

text \<open>
  C4, amended. Let \<open>ctx.Err()\<close> be an error once \<open>ctx.Done()\<close> is closed, as a \<open>Context\<close>
  promises. Then \<open>WaitUntilAddBytes\<close> returns \<open>nil\<close> exactly when the loop comes to a round
  whose \<open>TryAddBytes\<close> returns true (every round before it was refused and slept), and
  the count is then added to the counter that this round found; an error it returns is
  \<open>ctx.Err()\<close>, returned by a round that found the context done, and the call has then
  added nothing to the counter; and it does return once a round finds the context done.
  In particular, with a limit from 0 up to the largest \<open>int64\<close> less one, the counter at
  the limit and changed by no other goroutine, a count of 1, a predicate that is false
  every time and a context that a \<open>select\<close> finds done, the call returns \<open>ctx.Err()\<close> and
  never adds the count.
\<close>

theorem WaitUntilAddBytes_nil_or_context_error:
  assumes "Err ctx \<noteq> nil"
  shows
  "(snd (WaitUntilAddBytes c ctx count rs) = Some nil \<longleftrightarrow>
      (\<exists>k < length rs.
         (\<forall>i < k. \<not> snd (TryAddBytes (seen c rs i) count (useRelaxed (rs ! i)))
                   \<and> selected (rs ! i) = time_After)
         \<and> snd (TryAddBytes (seen c rs k) count (useRelaxed (rs ! k)))))
   \<and> (\<forall>k < length rs.
        (\<forall>i < k. \<not> snd (TryAddBytes (seen c rs i) count (useRelaxed (rs ! i)))
                  \<and> selected (rs ! i) = time_After)
        \<and> snd (TryAddBytes (seen c rs k) count (useRelaxed (rs ! k))) \<longrightarrow>
        WaitUntilAddBytes c ctx count rs
          = ((seen c rs k)\<lparr>value := value (seen c rs k) + count\<rparr>, Some nil))
   \<and> (\<forall>e. snd (WaitUntilAddBytes c ctx count rs) = Some e \<and> e \<noteq> nil \<longrightarrow>
        e = Err ctx \<and>
        (\<exists>k < length rs. selected (rs ! k) = ctx_Done
           \<and> fst (WaitUntilAddBytes c ctx count rs) = seen c rs (Suc k)))
   \<and> ((\<exists>r \<in> set rs. selected r = ctx_Done) \<longrightarrow>
        snd (WaitUntilAddBytes c ctx count rs) \<noteq> None)
   \<and> (value c = limit c \<and> 0 \<le>s limit c \<and> limit c <s 9223372036854775807 \<and> count = 1
        \<and> (\<forall>r \<in> set rs. \<not> useRelaxed r \<and> others r = 0)
        \<and> (\<exists>r \<in> set rs. selected r = ctx_Done) \<longrightarrow>
        WaitUntilAddBytes c ctx count rs = (c, Some (Err ctx)))"
proof (intro conjI)
  show "snd (WaitUntilAddBytes c ctx count rs) = Some nil \<longleftrightarrow>
      (\<exists>k < length rs.
         (\<forall>i < k. \<not> snd (TryAddBytes (seen c rs i) count (useRelaxed (rs ! i)))
                   \<and> selected (rs ! i) = time_After)
         \<and> snd (TryAddBytes (seen c rs k) count (useRelaxed (rs ! k))))"
    using assms by (rule WaitUntilAddBytes_nil_iff)
  show "\<forall>k < length rs.
        (\<forall>i < k. \<not> snd (TryAddBytes (seen c rs i) count (useRelaxed (rs ! i)))
                  \<and> selected (rs ! i) = time_After)
        \<and> snd (TryAddBytes (seen c rs k) count (useRelaxed (rs ! k))) \<longrightarrow>
        WaitUntilAddBytes c ctx count rs
          = ((seen c rs k)\<lparr>value := value (seen c rs k) + count\<rparr>, Some nil)"
    using WaitUntilAddBytes_first_added [of _ rs c count ctx] by blast
  show "\<forall>e. snd (WaitUntilAddBytes c ctx count rs) = Some e \<and> e \<noteq> nil \<longrightarrow>
        e = Err ctx \<and>
        (\<exists>k < length rs. selected (rs ! k) = ctx_Done
           \<and> fst (WaitUntilAddBytes c ctx count rs) = seen c rs (Suc k))"
    using WaitUntilAddBytes_error [of c ctx count rs] by blast
  show "(\<exists>r \<in> set rs. selected r = ctx_Done) \<longrightarrow>
        snd (WaitUntilAddBytes c ctx count rs) \<noteq> None"
    using WaitUntilAddBytes_returns_when_cancelled [of rs c ctx count] by blast
  show "value c = limit c \<and> 0 \<le>s limit c \<and> limit c <s 9223372036854775807 \<and> count = 1
        \<and> (\<forall>r \<in> set rs. \<not> useRelaxed r \<and> others r = 0)
        \<and> (\<exists>r \<in> set rs. selected r = ctx_Done) \<longrightarrow>
        WaitUntilAddBytes c ctx count rs = (c, Some (Err ctx))"
  proof
    assume h: "value c = limit c \<and> 0 \<le>s limit c \<and> limit c <s 9223372036854775807 \<and> count = 1
        \<and> (\<forall>r \<in> set rs. \<not> useRelaxed r \<and> others r = 0)
        \<and> (\<exists>r \<in> set rs. selected r = ctx_Done)"
    then have "\<not> snd (TryAddBytes c 1 False)" by (intro full_limiter_refuses_one) simp_all
    with h have "\<forall>r \<in> set rs. \<not> snd (TryAddBytes c count (useRelaxed r)) \<and> others r = 0" by simp
    with h show "WaitUntilAddBytes c ctx count rs = (c, Some (Err ctx))"
      by (intro WaitUntilAddBytes_all_refused) simp_all
  qed
qed

theorem WaitUntilAddBytes_nil_or_context_error_witness:
  "Err \<lparr>Err = Canceled\<rparr> \<noteq> nil
   \<and> WaitUntilAddBytes \<lparr>value = 10, limit = 10\<rparr> \<lparr>Err = Canceled\<rparr> 1
        [\<lparr>useRelaxed = False, selected = ctx_Done, others = 0\<rparr>]
       = (\<lparr>value = 10, limit = 10\<rparr>, Some Canceled)
   \<and> WaitUntilAddBytes \<lparr>value = 10, limit = 10\<rparr> \<lparr>Err = Canceled\<rparr> 1
        [\<lparr>useRelaxed = False, selected = time_After, others = 0\<rparr>,
         \<lparr>useRelaxed = False, selected = ctx_Done, others = 0\<rparr>]
       = (\<lparr>value = 10, limit = 10\<rparr>, Some Canceled)
   \<and> WaitUntilAddBytes \<lparr>value = 7, limit = 10\<rparr> \<lparr>Err = Canceled\<rparr> 1
        [\<lparr>useRelaxed = False, selected = time_After, others = 0\<rparr>,
         \<lparr>useRelaxed = True, selected = ctx_Done, others = 0\<rparr>]
       = (\<lparr>value = 8, limit = 10\<rparr>, Some nil)
   \<and> WaitUntilAddBytes \<lparr>value = 10, limit = 10\<rparr> \<lparr>Err = Canceled\<rparr> 4
        [\<lparr>useRelaxed = True, selected = time_After, others = - 6\<rparr>,
         \<lparr>useRelaxed = True, selected = ctx_Done, others = 0\<rparr>]
       = (\<lparr>value = 8, limit = 10\<rparr>, Some nil)"
proof -
  have h: "Err \<lparr>Err = Canceled\<rparr> \<noteq> nil" by simp
  have e: "effective_lim 10 False = 7" by code_simp
  have e': "effective_lim 10 True = 10" by (simp add: effective_lim_def)
  have full: "value \<lparr>value = 10, limit = 10\<rparr> = limit \<lparr>value = 10, limit = 10\<rparr>
      \<and> 0 \<le>s limit \<lparr>value = 10, limit = 10\<rparr>
      \<and> limit \<lparr>value = 10, limit = 10\<rparr> <s 9223372036854775807 \<and> (1 :: int64) = 1"
    by (simp add: word_sle_eq word_sless_alt)
  have a: "WaitUntilAddBytes \<lparr>value = 10, limit = 10\<rparr> \<lparr>Err = Canceled\<rparr> 1
        [\<lparr>useRelaxed = False, selected = ctx_Done, others = 0\<rparr>]
       = (\<lparr>value = 10, limit = 10\<rparr>, Some (Err \<lparr>Err = Canceled\<rparr>))"
    using full
      WaitUntilAddBytes_nil_or_context_error [OF h, of "\<lparr>value = 10, limit = 10\<rparr>" 1
        "[\<lparr>useRelaxed = False, selected = ctx_Done, others = 0\<rparr>]"]
    by (simp del: WaitUntilAddBytes.simps)
  have b: "WaitUntilAddBytes \<lparr>value = 10, limit = 10\<rparr> \<lparr>Err = Canceled\<rparr> 1
        [\<lparr>useRelaxed = False, selected = time_After, others = 0\<rparr>,
         \<lparr>useRelaxed = False, selected = ctx_Done, others = 0\<rparr>]
       = (\<lparr>value = 10, limit = 10\<rparr>, Some (Err \<lparr>Err = Canceled\<rparr>))"
    using full
      WaitUntilAddBytes_nil_or_context_error [OF h, of "\<lparr>value = 10, limit = 10\<rparr>" 1
        "[\<lparr>useRelaxed = False, selected = time_After, others = 0\<rparr>,
          \<lparr>useRelaxed = False, selected = ctx_Done, others = 0\<rparr>]"]
    by (simp del: WaitUntilAddBytes.simps)
  have n: "WaitUntilAddBytes \<lparr>value = 7, limit = 10\<rparr> \<lparr>Err = Canceled\<rparr> 1
        [\<lparr>useRelaxed = False, selected = time_After, others = 0\<rparr>,
         \<lparr>useRelaxed = True, selected = ctx_Done, others = 0\<rparr>]
       = (\<lparr>value = 8, limit = 10\<rparr>, Some nil)"
    by (simp add: TryAddBytes_eq e e' word_sle_eq)
  have o: "WaitUntilAddBytes \<lparr>value = 10, limit = 10\<rparr> \<lparr>Err = Canceled\<rparr> 4
        [\<lparr>useRelaxed = True, selected = time_After, others = - 6\<rparr>,
         \<lparr>useRelaxed = True, selected = ctx_Done, others = 0\<rparr>]
       = (\<lparr>value = 8, limit = 10\<rparr>, Some nil)"
    by (simp add: TryAddBytes_eq e' word_sle_eq)
  show ?thesis
    unfolding a b n o by simp
qed

lemma two_seconds: "float32_mul (2, 0) (float32_of_int64 time_Second) = (15625000, 7)"
  unfolding time_Second_def by code_simp

lemma f32_below_one:
  assumes "0 \<le> m" "m < 2 ^ 24" "real_of_int m * 2 powi e < 1"
  shows "real_of_int m * 2 powi e \<le> 1 - 1 / 2 ^ 24"
proof (cases "- 24 \<le> e")
  case True
  define n where "n = nat (e + 24)"
  have "(2::real) powi (e + 24) = 2 powi e * 2 powi 24" by (rule power_int_add) simp
  then have s: "(2::real) powi e * 2 ^ 24 = 2 ^ n" using True by (simp add: n_def power_int_def)
  have "real_of_int m * 2 powi e * 2 ^ 24 < 1 * 2 ^ 24"
    using assms(3) by (intro mult_strict_right_mono) simp_all
  then have "real_of_int m * (2 powi e * 2 ^ 24) < 2 ^ 24"
    by (simp only: mult.assoc mult_1)
  then have "real_of_int m * 2 ^ n < 2 ^ 24" by (simp only: s)
  moreover have "real_of_int (m * 2 ^ n) = real_of_int m * 2 ^ n" by simp
  moreover have "real_of_int (2 ^ 24) = 2 ^ 24" by simp
  ultimately have "real_of_int (m * 2 ^ n) < real_of_int (2 ^ 24)" by (simp only:)
  then have "m * 2 ^ n < 2 ^ 24" by (simp only: of_int_less_iff)
  then have "m * 2 ^ n \<le> 2 ^ 24 - 1" by simp
  then have "real_of_int (m * 2 ^ n) \<le> real_of_int (2 ^ 24 - 1)" by (simp only: of_int_le_iff)
  then have "real_of_int m * 2 ^ n \<le> 2 ^ 24 - 1" by simp
  then have "real_of_int m * (2 powi e * 2 ^ 24) \<le> 2 ^ 24 - 1" by (simp only: s)
  then show ?thesis by (simp add: field_simps)
next
  case False
  then have "e \<le> - 25" by simp
  then have "(2::real) powi e \<le> 2 powi (- 25)" by (intro power_int_increasing) simp_all
  moreover have "real_of_int m \<le> 2 ^ 24" using assms(2) by (simp add: of_int_le_numeral_power_cancel_iff)
  moreover have "0 \<le> real_of_int m" using assms(1) by simp
  ultimately have "real_of_int m * 2 powi e \<le> 2 ^ 24 * 2 powi (- 25)"
    by (intro mult_mono) simp_all
  then show ?thesis by (simp add: power_int_minus)
qed

text \<open>
  The sleep between two rounds (C8, the part about the bounds): whatever single-precision
  number \<open>r\<close> with \<open>0 \<le> r < 1\<close> the generator returns, the sleep is at least 0 and less
  than 2 seconds, in nanoseconds. How the sleep is distributed depends on the generator,
  which is not part of this development.
\<close>

lemma retry_delay_bounds:
  assumes "0 \<le> fst r" "fst r < 2 ^ 24" "f32_val r < 1"
  shows "0 \<le> sint (retry_delay r) \<and> sint (retry_delay r) < 2000000000"
proof -
  define p where "p = 2000000000 * f32_val r"
  have r1: "f32_val r \<le> 1 - 1 / 2 ^ 24"
    using f32_below_one [OF assms(1,2)] assms(3) by (simp add: f32_val_def)
  have r0: "0 \<le> f32_val r" using assms(1) by (simp add: f32_val_def)
  have p0: "0 \<le> p" using r0 by (simp add: p_def)
  have p1: "p \<le> 2000000000 * (1 - 1 / 2 ^ 24)" using r1 by (simp add: p_def)
  have "(2::real) powi (7 + snd r) = 2 powi 7 * 2 powi snd r" by (rule power_int_add) simp
  then have "real_of_int (15625000 * fst r) * 2 powi (7 + snd r) = p"
    by (simp add: p_def f32_val_def)
  then have v: "f32_val (float32_mul (15625000, 7) r) = to_single p"
    unfolding float32_mul_def by (simp only: f32_round_val fst_conv snd_conv)
  have err: "\<bar>to_single p - p\<bar> \<le> p / 2 ^ 24" using to_single_error [of p] p0 by simp
  have small: "p / 2 ^ 24 \<le> p" using p0 by (simp add: field_simps)
  from err small have lo: "0 \<le> to_single p" by linarith
  from err have "to_single p \<le> p + p / 2 ^ 24" by linarith
  also have "\<dots> = p * (1 + 1 / 2 ^ 24)" by (simp add: algebra_simps)
  also have "\<dots> \<le> 2000000000 * (1 - 1 / 2 ^ 24) * (1 + 1 / 2 ^ 24)"
    using p1 by (intro mult_right_mono) simp_all
  also have "\<dots> < 2000000000" by simp
  finally have hi: "to_single p < 2000000000" .
  define t where "t = f32_trunc (float32_mul (15625000, 7) r)"
  have t: "t = \<lfloor>to_single p\<rfloor>"
    using lo by (simp add: t_def f32_trunc_val v trunc_toward_zero_def)
  have t0: "0 \<le> t" using lo t by simp
  have t1: "t < 2000000000" using hi t by (simp add: floor_less_iff)
  have "signed_take_bit 63 t = t"
    using t0 t1 by (intro signed_take_bit_int_eq_self) simp_all
  then have "sint (retry_delay r) = t"
    by (simp add: retry_delay_def two_seconds int64_of_float32_def t_def sint_sbintrunc')
  with t0 t1 show ?thesis by simp
qed

end
